theory Spec2Isabelle
  imports Main "HOL-Library.Sublist" "HOL-Library.Multiset" "HOL-Library.AList"
begin

section \<open>Python strings and dictionaries\<close>

text \<open>
  A Python \<open>str\<close> is modelled as a \<open>string\<close>, each \<open>char\<close> standing for the code point
  of the same number (0 to 255).  The section segmenter only ever receives the output of
  the text cleaner, whose characters other than whitespace are ASCII.  A \<open>dict\<close> is an
  association list in insertion order; \<open>AList.update\<close> overwrites the entry of a key that
  is present and appends a new entry otherwise, as assignment to a \<open>dict\<close> does.
\<close>

datatype error =
    KeyError string
  | IndexError
  | ValueError
  | OtherError string

definition is_space :: "char \<Rightarrow> bool" where
  \<comment> \<open>\<open>str.isspace\<close> and the regular expression class \<open>\s\<close> on code points below 256\<close>
  "is_space c = (let n = (of_char c :: nat) in
       (9 \<le> n \<and> n \<le> 13) \<or> (28 \<le> n \<and> n \<le> 32) \<or> n = 133 \<or> n = 160)"

definition is_digit :: "char \<Rightarrow> bool" where
  "is_digit c = (let n = (of_char c :: nat) in 48 \<le> n \<and> n \<le> 57)"

definition is_ascii_letter :: "char \<Rightarrow> bool" where
  "is_ascii_letter c = (let n = (of_char c :: nat) in (65 \<le> n \<and> n \<le> 90) \<or> (97 \<le> n \<and> n \<le> 122))"

definition lower_char :: "char \<Rightarrow> char" where
  \<comment> \<open>\<open>str.lower\<close> on one code point below 256: A-Z and the Latin-1 capitals except the
      multiplication sign move up by 32\<close>
  "lower_char c = (let n = (of_char c :: nat) in
       if (65 \<le> n \<and> n \<le> 90) \<or> (192 \<le> n \<and> n \<le> 222 \<and> n \<noteq> 215) then char_of (n + 32) else c)"

definition lower :: "string \<Rightarrow> string" where
  "lower s = map lower_char s"

fun startswith :: "string \<Rightarrow> string \<Rightarrow> bool" where
  "startswith s [] = True"
| "startswith [] (k # ks) = False"
| "startswith (c # cs) (k # ks) = (c = k \<and> startswith cs ks)"

fun str_in :: "string \<Rightarrow> string \<Rightarrow> bool" where
  \<comment> \<open>\<open>keyword in s\<close>: the keyword occurs as a contiguous substring\<close>
  "str_in keyword [] = (keyword = [])"
| "str_in keyword (c # cs) = (startswith (c # cs) keyword \<or> str_in keyword cs)"

definition strip :: "string \<Rightarrow> string" where
  "strip s = rev (dropWhile is_space (rev (dropWhile is_space s)))"

fun join :: "string \<Rightarrow> string list \<Rightarrow> string" where
  "join sep [] = []"
| "join sep [x] = x"
| "join sep (x # y # ys) = x @ sep @ join sep (y # ys)"

section \<open>The section segmenter: \<open>split_into_sections\<close>\<close>

definition section_headers :: "(string \<times> string list) list" where
  "section_headers =
    [(''Title'', [''title'']),
     (''Abstract'', [''abstract'']),
     (''Introduction'', [''introduction'']),
     (''Methods'', [''methods'', ''methodology'', ''materials & methods'']),
     (''Results'', [''results'', ''findings'']),
     (''Discussion'', [''discussion'', ''analysis'']),
     (''Conclusion'', [''conclusion'', ''summary'', ''final thoughts''])]"

definition section_names :: "string list" where
  "section_names = map fst section_headers"

definition initial_sections :: "(string \<times> string) list" where
  \<comment> \<open>\<open>{key: "" for key in section_headers}\<close>\<close>
  "initial_sections = map (\<lambda>(key, keywords). (key, [])) section_headers"

fun first_match :: "(string \<times> string list) list \<Rightarrow> string \<Rightarrow> string option" where
  \<comment> \<open>the inner loop over \<open>section_headers.items()\<close>, left at the first section one of whose
      keywords occurs in the lower-cased sentence\<close>
  "first_match [] sentence = None"
| "first_match ((section, keywords) # rest) sentence =
     (if list_ex (\<lambda>keyword. str_in keyword (lower sentence)) keywords then Some section
      else first_match rest sentence)"

definition next_section :: "string \<Rightarrow> string \<Rightarrow> string" where
  \<comment> \<open>the value of \<open>current_section\<close> after the inner loop\<close>
  "next_section current_section sentence =
     (case first_match section_headers sentence of
        Some section \<Rightarrow> section
      | None \<Rightarrow> current_section)"

fun assign :: "(string \<times> string) list \<Rightarrow> string \<Rightarrow> string list \<Rightarrow> error + (string \<times> string) list" where
  \<comment> \<open>the outer loop; \<open>sections[current_section] += sentence + " "\<close> raises \<open>KeyError\<close> on a
      key that is absent\<close>
  "assign sections current_section [] = Inr sections"
| "assign sections current_section (sentence # sentences) =
     (let cur = next_section current_section sentence in
      case map_of sections cur of
        None \<Rightarrow> Inl (KeyError cur)
      | Some content \<Rightarrow>
          assign (AList.update cur (content @ sentence @ '' '') sections) cur sentences)"

definition split_into_sections :: "(string \<Rightarrow> string list) \<Rightarrow> string \<Rightarrow> error + (string \<times> string) list" where
  \<comment> \<open>the sentence tokenizer of the library is a parameter\<close>
  "split_into_sections sent_tokenize text = assign initial_sections ''Title'' (sent_tokenize text)"

fun cursors :: "string \<Rightarrow> string list \<Rightarrow> string list" where
  \<comment> \<open>the successive values of \<open>current_section\<close>, one for each sentence\<close>
  "cursors current_section [] = []"
| "cursors current_section (sentence # sentences) =
     (let cur = next_section current_section sentence in cur # cursors cur sentences)"

definition bucket :: "string \<Rightarrow> string \<Rightarrow> string list \<Rightarrow> string list" where
  \<comment> \<open>the sentences appended to one section, in the order of the text, when the loop is
      entered with the given value of \<open>current_section\<close>\<close>
  "bucket current_section section sentences =
     map fst (filter (\<lambda>(sentence, cur). cur = section)
       (zip sentences (cursors current_section sentences)))"

definition spaced :: "string list \<Rightarrow> string" where
  \<comment> \<open>each sentence followed by one space\<close>
  "spaced sentences = concat (map (\<lambda>sentence. sentence @ '' '') sentences)"

fun toy_sent_tokenize_from :: "string \<Rightarrow> string \<Rightarrow> string list" where
  "toy_sent_tokenize_from acc [] = (if acc = [] then [] else [acc])"
| "toy_sent_tokenize_from acc (c # cs) =
     (if c = CHR ''.'' \<and> (cs = [] \<or> hd cs = CHR '' '')
      then (acc @ [c]) # toy_sent_tokenize_from [] (drop 1 cs)
      else toy_sent_tokenize_from (acc @ [c]) cs)"

definition toy_sent_tokenize :: "string \<Rightarrow> string list" where
  \<comment> \<open>a tokenizer to run the examples with: a sentence ends at a full stop that is
      followed by a space or by the end of the text\<close>
  "toy_sent_tokenize text = toy_sent_tokenize_from [] text"

definition example_text :: string where
  \<comment> \<open>the five-sentence example of the specification\<close>
  "example_text = ''This paper presents Methods. We used X. Results show Y improved. In Discussion, Z holds. Methods section reviewed again.''"

section \<open>The text cleaner: \<open>clean_text\<close>\<close>

text \<open>
  The six patterns of \<open>clean_text\<close> repeat single characters only, so the regular
  expressions are sequences and alternatives of character tests, with a greedy and a lazy
  star over one character test.  The matcher backtracks in the order of the \<open>re\<close> module:
  the left alternative first, the longest repetition first for a greedy star and the
  shortest first for a lazy one.  It is written with a continuation, which receives the
  rest of the text and answers with the rest after the whole match.
\<close>

datatype regex =
    Eps
  | Atom "char \<Rightarrow> bool"
  | Seq regex regex
  | Alt regex regex
  | Star "char \<Rightarrow> bool"
  | LazyStar "char \<Rightarrow> bool"

primrec star_greedy :: "(char \<Rightarrow> bool) \<Rightarrow> (string \<Rightarrow> string option) \<Rightarrow> string \<Rightarrow> string option" where
  "star_greedy p k [] = k []"
| "star_greedy p k (c # cs) =
     (if p c then (case star_greedy p k cs of Some rest \<Rightarrow> Some rest | None \<Rightarrow> k (c # cs))
      else k (c # cs))"

primrec star_lazy :: "(char \<Rightarrow> bool) \<Rightarrow> (string \<Rightarrow> string option) \<Rightarrow> string \<Rightarrow> string option" where
  "star_lazy p k [] = k []"
| "star_lazy p k (c # cs) =
     (case k (c # cs) of Some rest \<Rightarrow> Some rest
      | None \<Rightarrow> if p c then star_lazy p k cs else None)"

primrec rmatch :: "regex \<Rightarrow> (string \<Rightarrow> string option) \<Rightarrow> string \<Rightarrow> string option" where
  "rmatch Eps = (\<lambda>k s. k s)"
| "rmatch (Atom p) = (\<lambda>k s. case s of [] \<Rightarrow> None | c # cs \<Rightarrow> if p c then k cs else None)"
| "rmatch (Seq r1 r2) = (\<lambda>k s. rmatch r1 (rmatch r2 k) s)"
| "rmatch (Alt r1 r2) = (\<lambda>k s. case rmatch r1 k s of Some rest \<Rightarrow> Some rest | None \<Rightarrow> rmatch r2 k s)"
| "rmatch (Star p) = (\<lambda>k s. star_greedy p k s)"
| "rmatch (LazyStar p) = (\<lambda>k s. star_lazy p k s)"

definition match_here :: "regex \<Rightarrow> string \<Rightarrow> string option" where
  \<comment> \<open>the text left after the match that starts at the head of the text, if there is one\<close>
  "match_here r s = rmatch r Some s"

function re_sub :: "regex \<Rightarrow> string \<Rightarrow> string" where
  \<comment> \<open>\<open>re.sub(pattern, '', text)\<close>: matches are searched from left to right and removed; a
      character no match starts at is kept, and so is the character at an empty match\<close>
  "re_sub r [] = []"
| "re_sub r (c # cs) =
     (case match_here r (c # cs) of
        None \<Rightarrow> c # re_sub r cs
      | Some rest \<Rightarrow>
          if length rest < length (c # cs) then re_sub r rest else c # re_sub r cs)"
  by pat_completeness auto
termination
  by (relation "measure (\<lambda>(r, s). length s)") auto

definition lit :: "string \<Rightarrow> regex" where
  "lit s = foldr (\<lambda>c r. Seq (Atom (\<lambda>x. x = c)) r) s Eps"

definition ilit :: "string \<Rightarrow> regex" where
  \<comment> \<open>a literal under \<open>re.IGNORECASE\<close>\<close>
  "ilit s = foldr (\<lambda>c r. Seq (Atom (\<lambda>x. lower_char x = lower_char c)) r) s Eps"

definition plus :: "(char \<Rightarrow> bool) \<Rightarrow> regex" where
  "plus p = Seq (Atom p) (Star p)"

definition seqs :: "regex list \<Rightarrow> regex" where
  "seqs rs = foldr Seq rs Eps"

definition any_char :: "char \<Rightarrow> bool" where
  \<comment> \<open>the dot: every character but the newline\<close>
  "any_char c = (c \<noteq> CHR 0x0A)"

definition kept_char :: "char \<Rightarrow> bool" where
  \<comment> \<open>the class \<open>[a-zA-Z0-9.,!?;:()\s]\<close>\<close>
  "kept_char c = (is_ascii_letter c \<or> is_digit c \<or> c \<in> set ''.,!?;:()'' \<or> is_space c)"

definition re_journal :: regex where
  \<comment> \<open>\<open>eISSN:\s*\d+|pISSN:\s*\d+|Impact Factor.*?\d+\.\d+\<close>, ignoring case\<close>
  "re_journal =
     Alt (seqs [ilit ''eISSN:'', Star is_space, plus is_digit])
    (Alt (seqs [ilit ''pISSN:'', Star is_space, plus is_digit])
         (seqs [ilit ''Impact Factor'', LazyStar any_char, plus is_digit, lit ''.'', plus is_digit]))"

definition re_volume :: regex where
  \<comment> \<open>\<open>Volume:\s*\d+\s*Issue:\s*\d+\<close>, ignoring case\<close>
  "re_volume =
     seqs [ilit ''Volume:'', Star is_space, plus is_digit, Star is_space,
           ilit ''Issue:'', Star is_space, plus is_digit]"

definition re_iso :: regex where
  \<comment> \<open>\<open>ISO\s*\d{4,}\<close>, ignoring case\<close>
  "re_iso =
     seqs [ilit ''ISO'', Star is_space,
           Atom is_digit, Atom is_digit, Atom is_digit, Atom is_digit, Star is_digit]"

definition re_bracket :: regex where
  \<comment> \<open>\<open>\[\d+\]\<close>\<close>
  "re_bracket = seqs [lit ''['', plus is_digit, lit '']'']"

definition re_paren_year :: regex where
  \<comment> \<open>\<open>\(.*?\d{4}.*?\)\<close>\<close>
  "re_paren_year =
     seqs [lit ''('', LazyStar any_char,
           Atom is_digit, Atom is_digit, Atom is_digit, Atom is_digit,
           LazyStar any_char, lit '')'']"

definition re_special :: regex where
  \<comment> \<open>\<open>[^a-zA-Z0-9.,!?;:()\s]\<close>\<close>
  "re_special = Atom (\<lambda>c. \<not> kept_char c)"

definition clean_text :: "string \<Rightarrow> string" where
  "clean_text text =
     (let text = re_sub re_journal text;
          text = re_sub re_volume text;
          text = re_sub re_iso text;
          text = re_sub re_bracket text;
          text = re_sub re_paren_year text;
          text = re_sub re_special text
      in strip text)"

section \<open>The summarizer: \<open>HybridSummarizer\<close>\<close>

text \<open>
  The sentence splitter of the language pipeline, the TF-IDF vectorizer and the generative
  model are libraries; they are the fields of the record that stands for the object.
  \<open>tfidf_scores\<close> is \<open>fit_transform\<close> followed by the sum of each row: one score for each
  sentence, or the \<open>ValueError\<close> of an empty vocabulary.  The scores are of any linearly
  ordered type, since the code only compares them.
\<close>

record 'score HybridSummarizer =
  nlp_sents :: "string \<Rightarrow> string list"
  tfidf_scores :: "string list \<Rightarrow> error + 'score list"
  abstractive_summary :: "string \<Rightarrow> error + string"

datatype strategy = Extractive | Abstractive

definition summarization_strategy :: "(string \<times> strategy) list" where
  "summarization_strategy =
    [(''Methods'', Extractive),
     (''Results'', Extractive),
     (''Introduction'', Abstractive),
     (''Discussion'', Abstractive),
     (''Conclusion'', Abstractive)]"

definition sorted_reverse :: "('a \<Rightarrow> 'k::linorder) \<Rightarrow> 'a list \<Rightarrow> 'a list" where
  \<comment> \<open>\<open>sorted(xs, key=f, reverse=True)\<close>: a stable sort of the reversed list, reversed, so
      that equal keys keep the order of \<open>xs\<close>\<close>
  "sorted_reverse f xs = rev (sort_key f (rev xs))"

definition top_sentence_indices :: "'score::linorder list \<Rightarrow> nat \<Rightarrow> nat list" where
  "top_sentence_indices sentence_scores max_sentences =
     take max_sentences
       (sorted_reverse (\<lambda>i. sentence_scores ! i) [0..<length sentence_scores])"

definition extractive_summary ::
  "('score::linorder) HybridSummarizer \<Rightarrow> string \<Rightarrow> nat \<Rightarrow> error + string" where
  \<comment> \<open>\<open>sentences[i]\<close> raises \<open>IndexError\<close> at an index that is not one of a sentence\<close>
  "extractive_summary self text max_sentences =
     (let sentences = nlp_sents self text in
      case tfidf_scores self sentences of
        Inl e \<Rightarrow> Inl e
      | Inr sentence_scores \<Rightarrow>
          (let top = top_sentence_indices sentence_scores max_sentences in
           if \<forall>i \<in> set (sort top). i < length sentences
           then Inr (join '' '' (map (\<lambda>i. sentences ! i) (sort top)))
           else Inl IndexError))"

definition get_strategy :: "string \<Rightarrow> strategy" where
  \<comment> \<open>\<open>self.summarization_strategy.get(section, self.extractive_summary)\<close>\<close>
  "get_strategy section =
     (case map_of summarization_strategy section of
        Some s \<Rightarrow> s
      | None \<Rightarrow> Extractive)"

definition call_strategy ::
  "('score::linorder) HybridSummarizer \<Rightarrow> strategy \<Rightarrow> string \<Rightarrow> error + string" where
  \<comment> \<open>\<open>summarizer(content)\<close>, with the default \<open>max_sentences=3\<close> of the extractive method\<close>
  "call_strategy self s content =
     (case s of
        Extractive \<Rightarrow> extractive_summary self content 3
      | Abstractive \<Rightarrow> abstractive_summary self content)"

fun summarize_loop ::
  "('score::linorder) HybridSummarizer \<Rightarrow> (string \<times> string) list \<Rightarrow> (string \<times> string) list \<Rightarrow>
     error + (string \<times> string) list" where
  \<comment> \<open>the loop over \<open>sections.items()\<close>; nothing catches what a summarizer raises\<close>
  "summarize_loop self summaries [] = Inr summaries"
| "summarize_loop self summaries ((section, content) # rest) =
     (if strip content \<noteq> [] then
        (case call_strategy self (get_strategy section) content of
           Inl e \<Rightarrow> Inl e
         | Inr summary \<Rightarrow> summarize_loop self (AList.update section summary summaries) rest)
      else summarize_loop self summaries rest)"

definition summarize_sections ::
  "('score::linorder) HybridSummarizer \<Rightarrow> (string \<times> string) list \<Rightarrow> error + (string \<times> string) list" where
  "summarize_sections self sections = summarize_loop self [] sections"

definition toy_tfidf_scores :: "string list \<Rightarrow> error + nat list" where
  \<comment> \<open>a vectorizer to run the examples with: the vocabulary is empty when no sentence has
      a letter, and the score of a sentence is the number of its letters\<close>
  "toy_tfidf_scores sentences =
     (if list_all (\<lambda>s. list_all (\<lambda>c. \<not> is_ascii_letter c) s) sentences then Inl ValueError
      else Inr (map (\<lambda>s. length (filter is_ascii_letter s)) sentences))"

definition toy_summarizer :: "nat HybridSummarizer" where
  "toy_summarizer =
     \<lparr>nlp_sents = toy_sent_tokenize,
      tfidf_scores = toy_tfidf_scores,
      abstractive_summary = (\<lambda>text. Inr (take 12 text))\<rparr>"

definition example_sections :: "(string \<times> string) list" where
  \<comment> \<open>a section map with four empty sections and one of whitespace only\<close>
  "example_sections =
     [(''Title'', []), (''Abstract'', []), (''Introduction'', []),
      (''Methods'', ''  ''), (''Results'', ''It improved. ''),
      (''Discussion'', ''We discuss the outcome here.''), (''Conclusion'', [])]"

definition failing_sections :: "(string \<times> string) list" where
  \<comment> \<open>a section map whose Methods section has no word for the vocabulary\<close>
  "failing_sections =
     [(''Title'', []), (''Abstract'', []), (''Introduction'', []),
      (''Methods'', ''1 2 3. ''), (''Results'', ''It improved. ''),
      (''Discussion'', []), (''Conclusion'', [])]"

section \<open>Properties of the segmenter\<close>

lemma first_match_in: "first_match hs s = Some sec \<Longrightarrow> sec \<in> fst ` set hs"
  by (induction hs s rule: first_match.induct) (auto split: if_splits)

lemma next_section_in:
  "cur \<in> set section_names \<Longrightarrow> next_section cur s \<in> set section_names"
  by (auto simp: next_section_def section_names_def split: option.splits dest: first_match_in)

lemma spaced_Cons: "spaced (s # ss) = s @ '' '' @ spaced ss"
  by (simp add: spaced_def)

lemma spaced_Nil: "spaced [] = []"
  by (simp add: spaced_def)

lemma bucket_Nil: "bucket cur k [] = []"
  by (simp add: bucket_def)

lemma bucket_Cons:
  "bucket cur k (s # ss) =
     (if next_section cur s = k then s # bucket (next_section cur s) k ss
      else bucket (next_section cur s) k ss)"
  by (simp add: bucket_def Let_def)

text \<open>
  The loop never raises \<open>KeyError\<close> when it starts from the seven keys, it keeps the keys,
  and it appends to each section the sentences whose cursor is that section.
\<close>

lemma assign_char:
  "map fst secs = section_names \<Longrightarrow> cur \<in> set section_names \<Longrightarrow>
   \<exists>secs'. assign secs cur sents = Inr secs' \<and> map fst secs' = section_names \<and>
     (\<forall>k. map_of secs' k = map_option (\<lambda>v. v @ spaced (bucket cur k sents)) (map_of secs k))"
proof (induction sents arbitrary: secs cur)
  case Nil
  show ?case by (simp add: Nil.prems bucket_Nil spaced_Nil option.map_ident)
next
  case (Cons s ss)
  define c where "c = next_section cur s"
  have cin: "c \<in> set section_names" unfolding c_def by (rule next_section_in [OF Cons.prems(2)])
  then have "c \<in> fst ` set secs" using Cons.prems(1) by (metis set_map)
  then obtain content where look: "map_of secs c = Some content"
    by (metis map_of_eq_None_iff not_Some_eq)
  define secs1 where "secs1 = AList.update c (content @ s @ '' '') secs"
  have keys1: "map fst secs1 = section_names"
    using cin Cons.prems(1) by (simp add: secs1_def update_keys)
  from Cons.IH [OF keys1 cin] obtain secs' where
    run: "assign secs1 c ss = Inr secs'" and keys': "map fst secs' = section_names" and
    vals: "\<And>k. map_of secs' k = map_option (\<lambda>v. v @ spaced (bucket c k ss)) (map_of secs1 k)"
    by blast
  have step: "assign secs cur (s # ss) = assign secs1 c ss"
    by (simp add: Let_def c_def [symmetric] look secs1_def)
  have "map_of secs' k = map_option (\<lambda>v. v @ spaced (bucket cur k (s # ss))) (map_of secs k)" for k
  proof (cases "k = c")
    case True
    then show ?thesis
      by (simp add: vals secs1_def update_conv' look bucket_Cons c_def [symmetric] spaced_Cons)
  next
    case False
    then show ?thesis
      by (simp add: vals secs1_def update_conv' bucket_Cons c_def [symmetric])
  qed
  with step run keys' show ?case by simp
qed

lemma alist_by_keys:
  "distinct (map fst xs) \<Longrightarrow> xs = map (\<lambda>k. (k, the (map_of xs k))) (map fst xs)"
proof (induction xs)
  case Nil
  show ?case by simp
next
  case (Cons x xs)
  obtain k v where x: "x = (k, v)" by (cases x)
  have "k \<notin> fst ` set xs" and d: "distinct (map fst xs)" using Cons.prems by (auto simp: x)
  have "map (\<lambda>k'. (k', the (map_of (x # xs) k'))) (map fst xs) =
        map (\<lambda>k'. (k', the (map_of xs k'))) (map fst xs)"
    using \<open>k \<notin> fst ` set xs\<close> by (auto simp: x)
  with Cons.IH [OF d] show ?case by (simp add: x)
qed

lemma section_names_eq:
  "section_names =
     [''Title'', ''Abstract'', ''Introduction'', ''Methods'', ''Results'', ''Discussion'', ''Conclusion'']"
  by (simp add: section_names_def section_headers_def)

lemma distinct_section_names: "distinct section_names"
  by (simp add: section_names_eq)

lemma map_of_initial_sections:
  "map_of initial_sections k = (if k \<in> set section_names then Some [] else None)"
  by (simp add: initial_sections_def section_names_def section_headers_def)

lemma split_into_sections_eq:
  "split_into_sections sent_tokenize text =
     Inr (map (\<lambda>k. (k, spaced (bucket ''Title'' k (sent_tokenize text)))) section_names)"
proof -
  have k0: "map fst initial_sections = section_names"
    by (simp add: initial_sections_def section_names_def section_headers_def)
  have t: "''Title'' \<in> set section_names"
    by (simp add: section_names_eq)
  from assign_char [OF k0 t, of "sent_tokenize text"] obtain secs' where
    run: "assign initial_sections ''Title'' (sent_tokenize text) = Inr secs'" and
    keys': "map fst secs' = section_names" and
    vals: "\<And>k. map_of secs' k =
       map_option (\<lambda>v. v @ spaced (bucket ''Title'' k (sent_tokenize text))) (map_of initial_sections k)"
    by blast
  have "distinct (map fst secs')" by (simp add: keys' distinct_section_names)
  from alist_by_keys [OF this] have "secs' = map (\<lambda>k. (k, the (map_of secs' k))) section_names"
    by (simp add: keys')
  also have "\<dots> = map (\<lambda>k. (k, spaced (bucket ''Title'' k (sent_tokenize text)))) section_names"
    by (rule map_cong [OF refl]) (simp add: vals map_of_initial_sections)
  finally show ?thesis by (simp add: split_into_sections_def run)
qed

lemma length_cursors: "length (cursors cur ss) = length ss"
  by (induction ss arbitrary: cur) (simp_all add: Let_def)

lemma zip_as_map_nth:
  "length ys = length xs \<Longrightarrow> zip xs ys = map (\<lambda>i. (xs ! i, ys ! i)) [0..<length xs]"
  by (rule nth_equalityI) simp_all

lemma bucket_positions:
  "bucket cur k ss = map (\<lambda>i. ss ! i) (filter (\<lambda>i. cursors cur ss ! i = k) [0..<length ss])"
proof -
  have "zip ss (cursors cur ss) = map (\<lambda>i. (ss ! i, cursors cur ss ! i)) [0..<length ss]"
    by (rule zip_as_map_nth) (rule length_cursors)
  then show ?thesis
    by (simp add: bucket_def filter_map comp_def)
qed

lemma cursors_in:
  "cur \<in> set section_names \<Longrightarrow> set (cursors cur ss) \<subseteq> set section_names"
proof (induction ss arbitrary: cur)
  case Nil show ?case by simp
next
  case (Cons s ss)
  from Cons.IH [OF next_section_in [OF Cons.prems]] next_section_in [OF Cons.prems]
  show ?case by (simp add: Let_def)
qed

lemma subseq_bucket: "subseq (bucket cur k ss) ss"
  by (induction ss arbitrary: cur) (auto simp: bucket_Nil bucket_Cons)

lemma sum_single:
  "distinct ks \<Longrightarrow> (\<Sum>k\<leftarrow>ks. if c = k then {#s#} else {#}) = (if c \<in> set ks then {#s#} else {#})"
  by (induction ks) auto

lemma mset_buckets:
  "distinct ks \<Longrightarrow> set (cursors cur ss) \<subseteq> set ks \<Longrightarrow>
     (\<Sum>k\<leftarrow>ks. mset (bucket cur k ss)) = mset ss"
proof (induction ss arbitrary: cur)
  case Nil
  show ?case by (simp add: bucket_Nil)
next
  case (Cons s ss)
  define c where "c = next_section cur s"
  have cin: "c \<in> set ks" and rest: "set (cursors c ss) \<subseteq> set ks"
    using Cons.prems(2) by (simp_all add: Let_def c_def)
  have "(\<Sum>k\<leftarrow>ks. mset (bucket cur k (s # ss))) =
        (\<Sum>k\<leftarrow>ks. (if c = k then {#s#} else {#}) + mset (bucket c k ss))"
    by (rule arg_cong [where f = sum_list], rule map_cong [OF refl]) (simp add: bucket_Cons c_def)
  also have "\<dots> = (\<Sum>k\<leftarrow>ks. if c = k then {#s#} else {#}) + (\<Sum>k\<leftarrow>ks. mset (bucket c k ss))"
    by (simp add: sum_list_addf)
  also have "\<dots> = {#s#} + mset ss"
    by (simp add: sum_single [OF Cons.prems(1)] cin Cons.IH [OF Cons.prems(1) rest])
  finally show ?case by simp
qed


lemma split_into_sections_positions:
  "\<exists>secs. split_into_sections sent_tokenize text = Inr secs \<and> map fst secs = section_names \<and>
     (\<forall>k \<in> set section_names. map_of secs k =
        Some (spaced (map (\<lambda>i. sent_tokenize text ! i)
          (filter (\<lambda>i. cursors ''Title'' (sent_tokenize text) ! i = k) [0..<length (sent_tokenize text)]))))"
proof -
  let ?secs = "map (\<lambda>k. (k, spaced (bucket ''Title'' k (sent_tokenize text)))) section_names"
  have "map_of ?secs k = Some (spaced (bucket ''Title'' k (sent_tokenize text)))"
    if "k \<in> set section_names" for k
    using that by (simp add: map_of_map_restrict)
  then show ?thesis
    by (simp add: split_into_sections_eq comp_def bucket_positions)
qed

lemma first_match_None:
  "\<forall>(sec, kws) \<in> set hs. \<forall>k \<in> set kws. \<not> str_in k (lower s) \<Longrightarrow> first_match hs s = None"
  by (induction hs s rule: first_match.induct) (auto simp: list_ex_iff)

lemma first_match_first:
  "\<forall>(sec', kws') \<in> set pre. \<forall>k \<in> set kws'. \<not> str_in k (lower s) \<Longrightarrow>
   \<exists>k \<in> set kws. str_in k (lower s) \<Longrightarrow>
   first_match (pre @ (sec, kws) # post) s = Some sec"
  by (induction pre s rule: first_match.induct) (auto simp: list_ex_iff)

lemma cursors_nth:
  "i < length ss \<Longrightarrow>
   cursors cur ss ! i = next_section (if i = 0 then cur else cursors cur ss ! (i - 1)) (ss ! i)"
proof (induction ss arbitrary: cur i)
  case Nil
  then show ?case by simp
next
  case (Cons s ss)
  show ?case
  proof (cases i)
    case 0
    then show ?thesis by (simp add: Let_def)
  next
    case (Suc j)
    with Cons.prems have "j < length ss" by simp
    from Cons.IH [OF this, of "next_section cur s"] show ?thesis
      by (cases j) (simp_all add: Suc Let_def)
  qed
qed

lemma bucket_no_keyword:
  "\<forall>s \<in> set ss. first_match section_headers s = None \<Longrightarrow>
   bucket cur k ss = (if k = cur then ss else [])"
  by (induction ss) (auto simp: bucket_Nil bucket_Cons next_section_def)

lemma cursors_no_keyword:
  "\<forall>s \<in> set ss. first_match section_headers s = None \<Longrightarrow>
   cursors cur ss = replicate (length ss) cur"
  by (induction ss) (simp_all add: next_section_def)

lemma spaced_append: "spaced (xs @ ys) = spaced xs @ spaced ys"
  by (simp add: spaced_def)

lemma spaced_eq_Nil: "spaced xs = [] \<longleftrightarrow> xs = []"
  by (cases xs) (simp_all add: spaced_def)

lemma bucket_unused: "k \<notin> set (cursors cur ss) \<Longrightarrow> bucket cur k ss = []"
  by (induction ss arbitrary: cur) (auto simp: bucket_Nil bucket_Cons Let_def)

lemma set_bucket: "set (bucket cur k ss) \<subseteq> set ss"
  by (induction ss arbitrary: cur) (auto simp: bucket_Nil bucket_Cons)

lemma spaced_last:
  assumes "spaced xs \<noteq> []"
  shows "last (spaced xs) = CHR '' '' \<and> (\<exists>pre s. s \<in> set xs \<and> spaced xs = pre @ s @ '' '')"
proof -
  from assms have "xs \<noteq> []" by (simp add: spaced_eq_Nil)
  then obtain bs s where xs: "xs = bs @ [s]" by (metis rev_exhaust)
  have eq: "spaced xs = spaced bs @ s @ '' ''"
    by (simp add: xs spaced_append spaced_Cons spaced_Nil)
  have "last (spaced xs) = CHR '' ''" by (simp add: eq)
  moreover have "s \<in> set xs" by (simp add: xs)
  ultimately show ?thesis using eq by blast
qed

section \<open>Claims about the segmenter\<close>

text \<open>
  Claim C8.  On the example text of the specification, tokenized into its five sentences,
  the segmenter returns the Methods section with sentences 1, 2 and 5 in this order, the
  Results section with sentence 3 and the Discussion section with sentence 4, every other
  section empty; the cursor is Methods at sentences 1 and 2, Results at sentence 3,
  Discussion at sentence 4 and Methods again at sentence 5.
\<close>

theorem split_into_sections_example:
  assumes "sent_tokenize example_text =
     [''This paper presents Methods.'', ''We used X.'', ''Results show Y improved.'',
      ''In Discussion, Z holds.'', ''Methods section reviewed again.'']"
  shows "split_into_sections sent_tokenize example_text = Inr
     [(''Title'', []), (''Abstract'', []), (''Introduction'', []),
      (''Methods'', ''This paper presents Methods. We used X. Methods section reviewed again. ''),
      (''Results'', ''Results show Y improved. ''),
      (''Discussion'', ''In Discussion, Z holds. ''),
      (''Conclusion'', [])]
    \<and> cursors ''Title'' (sent_tokenize example_text) =
      [''Methods'', ''Methods'', ''Results'', ''Discussion'', ''Methods'']"
  unfolding split_into_sections_def assms by code_simp

theorem split_into_sections_example_witness:
  "toy_sent_tokenize example_text =
     [''This paper presents Methods.'', ''We used X.'', ''Results show Y improved.'',
      ''In Discussion, Z holds.'', ''Methods section reviewed again.'']
   \<and> split_into_sections toy_sent_tokenize example_text = Inr
     [(''Title'', []), (''Abstract'', []), (''Introduction'', []),
      (''Methods'', ''This paper presents Methods. We used X. Methods section reviewed again. ''),
      (''Results'', ''Results show Y improved. ''),
      (''Discussion'', ''In Discussion, Z holds. ''),
      (''Conclusion'', [])]"
proof -
  have tok: "toy_sent_tokenize example_text =
     [''This paper presents Methods.'', ''We used X.'', ''Results show Y improved.'',
      ''In Discussion, Z holds.'', ''Methods section reviewed again.'']"
    by code_simp
  from split_into_sections_example [of toy_sent_tokenize, OF tok] tok show ?thesis by blast
qed

text \<open>
  Claim C4.  When no sentence of the tokenized text contains a keyword of any section in
  its lower-cased form, the cursor stays at Title for every sentence: the Title section
  holds all the sentences and each of the six other sections is the empty string.
\<close>

theorem no_keyword_all_title:
  assumes "\<forall>s \<in> set (sent_tokenize text). \<forall>(sec, kws) \<in> set section_headers.
             \<forall>k \<in> set kws. \<not> str_in k (lower s)"
  shows "split_into_sections sent_tokenize text = Inr
     [(''Title'', spaced (sent_tokenize text)), (''Abstract'', []), (''Introduction'', []),
      (''Methods'', []), (''Results'', []), (''Discussion'', []), (''Conclusion'', [])]
    \<and> cursors ''Title'' (sent_tokenize text) = replicate (length (sent_tokenize text)) ''Title''"
proof -
  have none: "\<forall>s \<in> set (sent_tokenize text). first_match section_headers s = None"
    using assms by (blast intro: first_match_None)
  show ?thesis
    by (simp add: split_into_sections_eq section_names_eq bucket_no_keyword [OF none]
        cursors_no_keyword [OF none] spaced_Nil)
qed

theorem no_keyword_all_title_witness:
  "toy_sent_tokenize ''We used X. It improved Y.'' = [''We used X.'', ''It improved Y.'']
   \<and> first_match section_headers ''We used X.'' = None
   \<and> first_match section_headers ''It improved Y.'' = None
   \<and> split_into_sections toy_sent_tokenize ''We used X. It improved Y.'' = Inr
     [(''Title'', ''We used X. It improved Y. ''), (''Abstract'', []), (''Introduction'', []),
      (''Methods'', []), (''Results'', []), (''Discussion'', []), (''Conclusion'', [])]"
proof -
  have t: "toy_sent_tokenize ''We used X. It improved Y.'' = [''We used X.'', ''It improved Y.'']"
    by code_simp
  have n1: "first_match section_headers ''We used X.'' = None"
    by code_simp
  have n2: "first_match section_headers ''It improved Y.'' = None"
    by code_simp
  have h: "\<forall>s \<in> set (toy_sent_tokenize ''We used X. It improved Y.''). \<forall>(sec, kws) \<in> set section_headers.
             \<forall>k \<in> set kws. \<not> str_in k (lower s)"
    by code_simp
  have v: "spaced (toy_sent_tokenize ''We used X. It improved Y.'') = ''We used X. It improved Y. ''"
    by code_simp
  from no_keyword_all_title [of toy_sent_tokenize "''We used X. It improved Y.''", OF h] t n1 n2 v
  show ?thesis by simp
qed

text \<open>
  Claim C10.  The segmenter always returns a map, and its keys are exactly Title,
  Abstract, Introduction, Methods, Results, Discussion and Conclusion, in this order.  A
  section that is the cursor of no sentence is present with the empty string as its
  value.  A value that is not empty ends with a space, the one appended after the last
  sentence of the section.
\<close>

theorem split_into_sections_keys:
  "\<exists>secs. split_into_sections sent_tokenize text = Inr secs \<and>
     map fst secs =
       [''Title'', ''Abstract'', ''Introduction'', ''Methods'', ''Results'', ''Discussion'', ''Conclusion''] \<and>
     (\<forall>(k, v) \<in> set secs.
        (k \<notin> set (cursors ''Title'' (sent_tokenize text)) \<longrightarrow> v = []) \<and>
        (v \<noteq> [] \<longrightarrow> last v = CHR '' '' \<and>
           (\<exists>pre s. s \<in> set (sent_tokenize text) \<and> v = pre @ s @ '' '')))"
proof -
  let ?ss = "sent_tokenize text"
  let ?secs = "map (\<lambda>k. (k, spaced (bucket ''Title'' k ?ss))) section_names"
  have run: "split_into_sections sent_tokenize text = Inr ?secs"
    by (rule split_into_sections_eq)
  have keys: "map fst ?secs =
       [''Title'', ''Abstract'', ''Introduction'', ''Methods'', ''Results'', ''Discussion'', ''Conclusion'']"
    by (simp add: comp_def section_names_eq)
  have vals: "(k \<notin> set (cursors ''Title'' ?ss) \<longrightarrow> v = []) \<and>
        (v \<noteq> [] \<longrightarrow> last v = CHR '' '' \<and> (\<exists>pre s. s \<in> set ?ss \<and> v = pre @ s @ '' ''))"
    if "(k, v) \<in> set ?secs" for k v
  proof -
    from that have v: "v = spaced (bucket ''Title'' k ?ss)" by auto
    have a: "k \<notin> set (cursors ''Title'' ?ss) \<longrightarrow> v = []"
      by (simp add: v bucket_unused spaced_Nil)
    have b: "v \<noteq> [] \<longrightarrow> last v = CHR '' '' \<and> (\<exists>pre s. s \<in> set ?ss \<and> v = pre @ s @ '' '')"
    proof
      assume "v \<noteq> []"
      then have "spaced (bucket ''Title'' k ?ss) \<noteq> []" by (simp add: v)
      from spaced_last [OF this] set_bucket [of "''Title''" k ?ss] show
        "last v = CHR '' '' \<and> (\<exists>pre s. s \<in> set ?ss \<and> v = pre @ s @ '' '')"
        unfolding v by blast
    qed
    from a b show ?thesis by blast
  qed
  have all: "\<forall>(k, v) \<in> set ?secs.
        (k \<notin> set (cursors ''Title'' ?ss) \<longrightarrow> v = []) \<and>
        (v \<noteq> [] \<longrightarrow> last v = CHR '' '' \<and> (\<exists>pre s. s \<in> set ?ss \<and> v = pre @ s @ '' ''))"
    using vals by (intro ballI) (simp only: split_paired_all prod.case)
  show ?thesis
    by (rule exI [of _ ?secs]) (intro conjI run keys all)
qed

theorem split_into_sections_keys_witness:
  "split_into_sections toy_sent_tokenize ''Results show Y.'' = Inr
     [(''Title'', []), (''Abstract'', []), (''Introduction'', []), (''Methods'', []),
      (''Results'', ''Results show Y. ''), (''Discussion'', []), (''Conclusion'', [])]
   \<and> ''Title'' \<notin> set (cursors ''Title'' (toy_sent_tokenize ''Results show Y.''))
   \<and> last ''Results show Y. '' = CHR '' ''"
proof -
  have run: "split_into_sections toy_sent_tokenize ''Results show Y.'' = Inr
     [(''Title'', []), (''Abstract'', []), (''Introduction'', []), (''Methods'', []),
      (''Results'', ''Results show Y. ''), (''Discussion'', []), (''Conclusion'', [])]"
    by code_simp
  have unused: "''Title'' \<notin> set (cursors ''Title'' (toy_sent_tokenize ''Results show Y.''))"
    by code_simp
  from split_into_sections_keys [of toy_sent_tokenize "''Results show Y.''"]
  have "last ''Results show Y. '' = CHR '' ''"
    unfolding run by simp
  with run unused show ?thesis by blast
qed

text \<open>
  Claim C1, as it is written, asks that the values of the section map, concatenated in
  the declared order of the sections, give the sentences in the order of the text.  The
  values are grouped by section, so this fails as soon as the cursor moves back to an
  earlier section: of the two sentences below the second goes to Abstract, which comes
  before Methods in the declared order.
\<close>

theorem split_into_sections_order_counterexample:
  "toy_sent_tokenize ''Methods. Abstract.'' = [''Methods.'', ''Abstract.'']
   \<and> split_into_sections toy_sent_tokenize ''Methods. Abstract.'' = Inr
     [(''Title'', []), (''Abstract'', ''Abstract. ''), (''Introduction'', []),
      (''Methods'', ''Methods. ''), (''Results'', []), (''Discussion'', []), (''Conclusion'', [])]
   \<and> concat (map snd
     [(''Title'', []), (''Abstract'', ''Abstract. ''), (''Introduction'', []),
      (''Methods'', ''Methods. ''), (''Results'', []), (''Discussion'', []), (''Conclusion'', [])])
       = ''Abstract. Methods. ''
   \<and> spaced [''Methods.'', ''Abstract.''] = ''Methods. Abstract. ''
   \<and> ''Abstract. Methods. '' \<noteq> ''Methods. Abstract. ''"
  by code_simp

text \<open>
  Claim C1, amended.  The segmenter always returns a map with the seven keys.  Every
  sentence of the tokenized text has one cursor, which is one of the seven sections, and
  the value of each section is the sentences whose cursor it is, by increasing position in
  the text, each followed by a space.  So every sentence is in exactly one value, none is
  dropped or duplicated, and the order of the text is kept inside each value; the sentences
  of all the sections together are the sentences of the text, as a multiset.
\<close>

theorem split_into_sections_partition:
  "\<exists>secs. split_into_sections sent_tokenize text = Inr secs \<and> map fst secs = section_names \<and>
     length (cursors ''Title'' (sent_tokenize text)) = length (sent_tokenize text) \<and>
     (\<forall>i < length (sent_tokenize text). cursors ''Title'' (sent_tokenize text) ! i \<in> set section_names) \<and>
     (\<forall>k \<in> set section_names. map_of secs k =
        Some (spaced (map (\<lambda>i. sent_tokenize text ! i)
          (filter (\<lambda>i. cursors ''Title'' (sent_tokenize text) ! i = k)
             [0..<length (sent_tokenize text)])))) \<and>
     mset (concat (map (\<lambda>k. bucket ''Title'' k (sent_tokenize text)) section_names)) =
       mset (sent_tokenize text)"
proof -
  let ?ss = "sent_tokenize text"
  have t: "''Title'' \<in> set section_names" by (simp add: section_names_eq)
  have sub: "set (cursors ''Title'' ?ss) \<subseteq> set section_names"
    by (rule cursors_in [OF t])
  have len: "length (cursors ''Title'' ?ss) = length ?ss"
    by (rule length_cursors)
  have "\<forall>i < length ?ss. cursors ''Title'' ?ss ! i \<in> set section_names"
    using sub len by (metis nth_mem subsetD)
  moreover have "mset (concat (map (\<lambda>k. bucket ''Title'' k ?ss) section_names)) = mset ?ss"
    using mset_buckets [OF distinct_section_names sub] by (simp add: mset_concat comp_def)
  ultimately show ?thesis
    using split_into_sections_positions [of sent_tokenize "text"] len by blast
qed

theorem split_into_sections_partition_witness:
  "\<exists>secs. split_into_sections toy_sent_tokenize ''Methods. Abstract. More.'' = Inr secs
     \<and> cursors ''Title'' (toy_sent_tokenize ''Methods. Abstract. More.'') ! 2 \<in> set section_names
     \<and> map_of secs ''Abstract'' = Some ''Abstract. More. ''
     \<and> map_of secs ''Methods'' = Some ''Methods. ''"
proof -
  let ?ss = "toy_sent_tokenize ''Methods. Abstract. More.''"
  have tok: "?ss = [''Methods.'', ''Abstract.'', ''More.'']"
    by code_simp
  have a: "''Abstract'' \<in> set section_names" and m: "''Methods'' \<in> set section_names"
    by (simp_all add: section_names_eq)
  from split_into_sections_partition [of toy_sent_tokenize "''Methods. Abstract. More.''"]
  obtain secs where run: "split_into_sections toy_sent_tokenize ''Methods. Abstract. More.'' = Inr secs"
    and cin: "\<forall>i < length ?ss. cursors ''Title'' ?ss ! i \<in> set section_names"
    and vals: "\<forall>k \<in> set section_names. map_of secs k =
        Some (spaced (map (\<lambda>i. ?ss ! i) (filter (\<lambda>i. cursors ''Title'' ?ss ! i = k) [0..<length ?ss])))"
    by blast
  have e2: "length ?ss = 3" by (simp add: tok)
  have ea: "spaced (map (\<lambda>i. ?ss ! i) (filter (\<lambda>i. cursors ''Title'' ?ss ! i = ''Abstract'') [0..<length ?ss]))
      = ''Abstract. More. ''"
    by code_simp
  have em: "spaced (map (\<lambda>i. ?ss ! i) (filter (\<lambda>i. cursors ''Title'' ?ss ! i = ''Methods'') [0..<length ?ss]))
      = ''Methods. ''"
    by code_simp
  have "cursors ''Title'' ?ss ! 2 \<in> set section_names"
    using cin e2 by simp
  moreover have "map_of secs ''Abstract'' = Some ''Abstract. More. ''"
    using bspec [OF vals a] ea by simp
  moreover have "map_of secs ''Methods'' = Some ''Methods. ''"
    using bspec [OF vals m] em by simp
  ultimately show ?thesis using run by blast
qed

text \<open>
  Claim C3, as it is written, sends every sentence with both \<open>results\<close> and
  \<open>discussion\<close> to Results.  A keyword of a section declared before Results wins over
  both: the sentence below also contains \<open>methods\<close> and goes to Methods.
\<close>

theorem results_and_discussion_counterexample:
  "str_in ''results'' (lower ''Methods, results and discussion follow.'')
   \<and> str_in ''discussion'' (lower ''Methods, results and discussion follow.'')
   \<and> cursors ''Title'' [''Methods, results and discussion follow.''] = [''Methods'']
   \<and> split_into_sections toy_sent_tokenize ''Methods, results and discussion follow.'' = Inr
     [(''Title'', []), (''Abstract'', []), (''Introduction'', []),
      (''Methods'', ''Methods, results and discussion follow. ''),
      (''Results'', []), (''Discussion'', []), (''Conclusion'', [])]"
  by code_simp

text \<open>
  Claim C3, amended.  A sentence goes to the first section, in the declared order, one of
  whose keywords occurs in its lower-cased form, wherever the keywords stand in the
  sentence: if no keyword of the sections declared before a section occurs and one of its
  own does, the cursor of the sentence is that section.  A sentence with both \<open>results\<close>
  and \<open>discussion\<close> never goes to Discussion, and it goes to Results when no keyword of
  Title, Abstract, Introduction or Methods occurs in it.
\<close>

theorem first_match_wins:
  assumes "i < length sents"
  shows "(\<forall>pre sec kws post.
            section_headers = pre @ (sec, kws) # post \<longrightarrow>
            (\<forall>(sec', kws') \<in> set pre. \<forall>k \<in> set kws'. \<not> str_in k (lower (sents ! i))) \<longrightarrow>
            (\<exists>k \<in> set kws. str_in k (lower (sents ! i))) \<longrightarrow>
            cursors ''Title'' sents ! i = sec)
    \<and> (str_in ''results'' (lower (sents ! i)) \<and> str_in ''discussion'' (lower (sents ! i)) \<longrightarrow>
          cursors ''Title'' sents ! i \<noteq> ''Discussion'' \<and>
          (\<not> str_in ''title'' (lower (sents ! i)) \<and> \<not> str_in ''abstract'' (lower (sents ! i)) \<and>
           \<not> str_in ''introduction'' (lower (sents ! i)) \<and> \<not> str_in ''methods'' (lower (sents ! i)) \<and>
           \<not> str_in ''methodology'' (lower (sents ! i)) \<and>
           \<not> str_in ''materials & methods'' (lower (sents ! i)) \<longrightarrow>
           cursors ''Title'' sents ! i = ''Results''))"
proof -
  let ?s = "sents ! i"
  obtain prev where c: "cursors ''Title'' sents ! i = next_section prev ?s"
    using cursors_nth [OF assms] by blast
  have general: "cursors ''Title'' sents ! i = sec"
    if "section_headers = pre @ (sec, kws) # post"
      and "\<forall>(sec', kws') \<in> set pre. \<forall>k \<in> set kws'. \<not> str_in k (lower ?s)"
      and "\<exists>k \<in> set kws. str_in k (lower ?s)"
    for pre sec kws post
    using first_match_first [OF that(2) that(3), of sec post] by (simp add: c next_section_def that(1))
  have never: "cursors ''Title'' sents ! i \<noteq> ''Discussion''"
    if "str_in ''results'' (lower ?s)"
    using that by (simp add: c next_section_def section_headers_def)
  have res: "cursors ''Title'' sents ! i = ''Results''"
    if "str_in ''results'' (lower ?s)" "\<not> str_in ''title'' (lower ?s)" "\<not> str_in ''abstract'' (lower ?s)"
     "\<not> str_in ''introduction'' (lower ?s)" "\<not> str_in ''methods'' (lower ?s)"
     "\<not> str_in ''methodology'' (lower ?s)" "\<not> str_in ''materials & methods'' (lower ?s)"
    using that by (simp add: c next_section_def section_headers_def)
  from general never res show ?thesis by blast
qed

theorem first_match_wins_witness:
  "(1::nat) < length [''We start.'', ''Results and discussion follow.'']
   \<and> section_headers = take 4 section_headers @ (''Results'', [''results'', ''findings'']) # drop 5 section_headers
   \<and> list_all (\<lambda>(sec', kws'). list_all (\<lambda>k. \<not> str_in k (lower ''Results and discussion follow.'')) kws')
        (take 4 section_headers)
   \<and> str_in ''results'' (lower ''Results and discussion follow.'')
   \<and> str_in ''discussion'' (lower ''Results and discussion follow.'')
   \<and> cursors ''Title'' [''We start.'', ''Results and discussion follow.''] ! 1 = ''Results''
   \<and> cursors ''Title'' [''We start.'', ''Results and discussion follow.''] ! 1 \<noteq> ''Discussion''"
proof -
  let ?ss = "[''We start.'', ''Results and discussion follow.'']"
  have i: "(1::nat) < length ?ss" by simp
  have nth: "?ss ! 1 = ''Results and discussion follow.''" by simp
  have h: "section_headers = take 4 section_headers @ (''Results'', [''results'', ''findings'']) # drop 5 section_headers"
    by code_simp
  have p: "list_all (\<lambda>(sec', kws'). list_all (\<lambda>k. \<not> str_in k (lower ''Results and discussion follow.'')) kws')
        (take 4 section_headers)"
    by code_simp
  then have p': "\<forall>(sec', kws') \<in> set (take 4 section_headers). \<forall>k \<in> set kws'. \<not> str_in k (lower (?ss ! 1))"
    unfolding nth by (simp add: list_all_iff)
  have r: "str_in ''results'' (lower ''Results and discussion follow.'')" by code_simp
  have d: "str_in ''discussion'' (lower ''Results and discussion follow.'')" by code_simp
  have q: "\<exists>k \<in> set [''results'', ''findings'']. str_in k (lower (?ss ! 1))"
    using r unfolding nth by simp
  note w = first_match_wins [OF i]
  from w h p' q have c: "cursors ''Title'' ?ss ! 1 = ''Results''" by blast
  from w r d have "cursors ''Title'' ?ss ! 1 \<noteq> ''Discussion''" unfolding nth by blast
  with i h p r d c show ?thesis by blast
qed

section \<open>Claims about the cleaner\<close>

lemma match_here_Atom:
  "match_here (Atom p) (c # cs) = (if p c then Some cs else None)"
  by (simp add: match_here_def)

lemma re_sub_Atom: "re_sub (Atom p) s = filter (\<lambda>c. \<not> p c) s"
  by (induction s) (simp_all add: match_here_Atom)

lemma set_strip: "set (strip s) \<subseteq> set s"
proof -
  have "set (strip s) \<subseteq> set (dropWhile is_space s)"
    unfolding strip_def using set_dropWhileD by fastforce
  also have "\<dots> \<subseteq> set s"
    using set_dropWhileD by fastforce
  finally show ?thesis .
qed

text \<open>
  Claim C5.  Every character of the cleaned text is an ASCII letter, a digit, one of the
  marks \<open>. , ! ? ; : ( )\<close> or whitespace, whatever the input: the last substitution
  removes every other character and the final trimming only removes characters.
\<close>

theorem clean_text_chars:
  "\<forall>c \<in> set (clean_text text).
      is_ascii_letter c \<or> is_digit c \<or> c \<in> set ''.,!?;:()'' \<or> is_space c"
proof
  fix c assume "c \<in> set (clean_text text)"
  then obtain t where "c \<in> set (strip (re_sub re_special t))"
    by (auto simp: clean_text_def Let_def)
  then have "c \<in> set (re_sub re_special t)"
    using set_strip by blast
  then have "kept_char c"
    by (simp add: re_special_def re_sub_Atom)
  then show "is_ascii_letter c \<or> is_digit c \<or> c \<in> set ''.,!?;:()'' \<or> is_space c"
    by (simp only: kept_char_def)
qed

theorem clean_text_chars_witness:
  "clean_text ''a [1] <b>'' = ''a  b''
   \<and> CHR ''b'' \<in> set (clean_text ''a [1] <b>'')
   \<and> (is_ascii_letter (CHR ''b'') \<or> is_digit (CHR ''b'') \<or> CHR ''b'' \<in> set ''.,!?;:()'' \<or> is_space (CHR ''b''))"
proof -
  have e: "clean_text ''a [1] <b>'' = ''a  b''" by code_simp
  then have m: "CHR ''b'' \<in> set (clean_text ''a [1] <b>'')" by simp
  from bspec [OF clean_text_chars m] e m show ?thesis by blast
qed

section \<open>Claims about the summarizer\<close>

lemma get_strategy_cases:
  "get_strategy name =
     (if name \<in> {''Introduction'', ''Discussion'', ''Conclusion''} then Abstractive else Extractive)"
  by (simp add: get_strategy_def summarization_strategy_def)

lemma call_strategy_dispatch:
  "call_strategy self (get_strategy name) content =
     (if name \<in> {''Introduction'', ''Discussion'', ''Conclusion''}
      then abstractive_summary self content
      else extractive_summary self content 3)"
  by (simp add: get_strategy_cases call_strategy_def)

lemma summarize_loop_keeps:
  "summarize_loop self acc secs = Inr m \<Longrightarrow> k \<notin> fst ` set secs \<Longrightarrow> map_of m k = map_of acc k"
proof (induction secs arbitrary: acc)
  case Nil
  then show ?case by simp
next
  case (Cons x secs)
  obtain k' c' where x: "x = (k', c')" by (cases x)
  from Cons.prems(2) have ne: "k \<noteq> k'" and notin: "k \<notin> fst ` set secs" by (auto simp: x)
  show ?case
  proof (cases "strip c' = []")
    case True
    with Cons.prems(1) have "summarize_loop self acc secs = Inr m" by (simp add: x)
    from Cons.IH [OF this notin] show ?thesis .
  next
    case False
    with Cons.prems(1) obtain summary where
      rest: "summarize_loop self (AList.update k' summary acc) secs = Inr m"
      by (auto simp: x split: sum.splits)
    from Cons.IH [OF rest notin] ne show ?thesis by (simp add: update_conv')
  qed
qed

lemma summarize_loop_values:
  "summarize_loop self acc secs = Inr m \<Longrightarrow> distinct (map fst secs) \<Longrightarrow>
   (k, c) \<in> set secs \<Longrightarrow> strip c \<noteq> [] \<Longrightarrow>
   \<exists>s. call_strategy self (get_strategy k) c = Inr s \<and> map_of m k = Some s"
proof (induction secs arbitrary: acc)
  case Nil
  then show ?case by simp
next
  case (Cons x secs)
  obtain k' c' where x: "x = (k', c')" by (cases x)
  from Cons.prems(2) have fresh: "k' \<notin> fst ` set secs" and d: "distinct (map fst secs)"
    by (auto simp: x)
  show ?case
  proof (cases "x = (k, c)")
    case True
    then have kc: "k' = k" "c' = c" by (simp_all add: x)
    from Cons.prems(1,4) obtain summary where
      call: "call_strategy self (get_strategy k) c = Inr summary" and
      rest: "summarize_loop self (AList.update k summary acc) secs = Inr m"
      by (auto simp: x kc split: sum.splits)
    from summarize_loop_keeps [OF rest] fresh have "map_of m k = Some summary"
      by (simp add: kc update_conv')
    with call show ?thesis by blast
  next
    case False
    with Cons.prems(3) have mem: "(k, c) \<in> set secs" by simp
    show ?thesis
    proof (cases "strip c' = []")
      case True
      with Cons.prems(1) have "summarize_loop self acc secs = Inr m" by (simp add: x)
      from Cons.IH [OF this d mem Cons.prems(4)] show ?thesis .
    next
      case False
      with Cons.prems(1) obtain summary where
        rest: "summarize_loop self (AList.update k' summary acc) secs = Inr m"
        by (auto simp: x split: sum.splits)
      from Cons.IH [OF rest d mem Cons.prems(4)] show ?thesis .
    qed
  qed
qed

text \<open>
  Claim C9.  The strategy table sends Methods and Results to the extractive summary and
  Introduction, Discussion and Conclusion to the abstractive one.  A section name that is
  not in the table, Title and Abstract among them, gets the extractive summary.  The
  summarizer follows the table: the method called for a section is the abstractive summary
  for Introduction, Discussion and Conclusion and the extractive summary, with its default
  of three sentences, for every other name, and the result of that method is what
  \<open>summarize_sections\<close> stores for the section, in a map of one section and in any map
  it summarizes.
\<close>

theorem summarization_strategy_table:
  "summarization_strategy =
     [(''Methods'', Extractive), (''Results'', Extractive), (''Introduction'', Abstractive),
      (''Discussion'', Abstractive), (''Conclusion'', Abstractive)]
   \<and> get_strategy ''Methods'' = Extractive \<and> get_strategy ''Results'' = Extractive
   \<and> get_strategy ''Introduction'' = Abstractive \<and> get_strategy ''Discussion'' = Abstractive
   \<and> get_strategy ''Conclusion'' = Abstractive
   \<and> get_strategy ''Title'' = Extractive \<and> get_strategy ''Abstract'' = Extractive
   \<and> (\<forall>name. name \<notin> fst ` set summarization_strategy \<longrightarrow>
         get_strategy name = Extractive \<and>
         (\<forall>content. call_strategy self (get_strategy name) content = extractive_summary self content 3) \<and>
         (\<forall>content. strip content \<noteq> [] \<longrightarrow>
            summarize_sections self [(name, content)] =
              (case extractive_summary self content 3 of
                 Inl e \<Rightarrow> Inl e
               | Inr summary \<Rightarrow> Inr [(name, summary)])))
   \<and> (\<forall>name content.
         call_strategy self (get_strategy name) content =
           (if name \<in> {''Introduction'', ''Discussion'', ''Conclusion''}
            then abstractive_summary self content
            else extractive_summary self content 3))
   \<and> (\<forall>name content. strip content \<noteq> [] \<longrightarrow>
         summarize_sections self [(name, content)] =
           (case (if name \<in> {''Introduction'', ''Discussion'', ''Conclusion''}
                  then abstractive_summary self content
                  else extractive_summary self content 3) of
              Inl e \<Rightarrow> Inl e
            | Inr summary \<Rightarrow> Inr [(name, summary)]))
   \<and> (\<forall>sections summaries.
         summarize_sections self sections = Inr summaries \<longrightarrow> distinct (map fst sections) \<longrightarrow>
         (\<forall>(name, content) \<in> set sections. strip content \<noteq> [] \<longrightarrow>
            (\<exists>summary.
               (if name \<in> {''Introduction'', ''Discussion'', ''Conclusion''}
                then abstractive_summary self content
                else extractive_summary self content 3) = Inr summary
               \<and> map_of summaries name = Some summary)))"
proof -
  have default: "get_strategy name = Extractive"
    if "name \<notin> fst ` set summarization_strategy" for name
    using that by (simp add: get_strategy_def map_of_eq_None_iff [THEN iffD2])
  have call: "call_strategy self (get_strategy name) content = extractive_summary self content 3"
    if "name \<notin> fst ` set summarization_strategy" for name content
    by (simp add: default [OF that] call_strategy_def)
  have run: "summarize_sections self [(name, content)] =
              (case extractive_summary self content 3 of
                 Inl e \<Rightarrow> Inl e
               | Inr summary \<Rightarrow> Inr [(name, summary)])"
    if "name \<notin> fst ` set summarization_strategy" "strip content \<noteq> []" for name content
    using that(2) by (simp add: summarize_sections_def call [OF that(1)] split: sum.splits)
  have table: "get_strategy ''Methods'' = Extractive" "get_strategy ''Results'' = Extractive"
    "get_strategy ''Introduction'' = Abstractive" "get_strategy ''Discussion'' = Abstractive"
    "get_strategy ''Conclusion'' = Abstractive"
    "get_strategy ''Title'' = Extractive" "get_strategy ''Abstract'' = Extractive"
    by (simp_all add: get_strategy_def summarization_strategy_def)
  have unlisted: "\<forall>name. name \<notin> fst ` set summarization_strategy \<longrightarrow>
         get_strategy name = Extractive \<and>
         (\<forall>content. call_strategy self (get_strategy name) content = extractive_summary self content 3) \<and>
         (\<forall>content. strip content \<noteq> [] \<longrightarrow>
            summarize_sections self [(name, content)] =
              (case extractive_summary self content 3 of
                 Inl e \<Rightarrow> Inl e
               | Inr summary \<Rightarrow> Inr [(name, summary)]))"
    using default call run by blast
  have dispatch: "\<forall>name content.
         call_strategy self (get_strategy name) content =
           (if name \<in> {''Introduction'', ''Discussion'', ''Conclusion''}
            then abstractive_summary self content
            else extractive_summary self content 3)"
    by (intro allI) (rule call_strategy_dispatch)
  have single: "\<forall>name content. strip content \<noteq> [] \<longrightarrow>
         summarize_sections self [(name, content)] =
           (case (if name \<in> {''Introduction'', ''Discussion'', ''Conclusion''}
                  then abstractive_summary self content
                  else extractive_summary self content 3) of
              Inl e \<Rightarrow> Inl e
            | Inr summary \<Rightarrow> Inr [(name, summary)])"
  proof (intro allI impI)
    fix name content
    assume nb: "strip content \<noteq> []"
    have "summarize_sections self [(name, content)] =
           (case call_strategy self (get_strategy name) content of
              Inl e \<Rightarrow> Inl e
            | Inr summary \<Rightarrow> Inr [(name, summary)])"
      using nb by (simp add: summarize_sections_def split: sum.splits)
    then show "summarize_sections self [(name, content)] =
           (case (if name \<in> {''Introduction'', ''Discussion'', ''Conclusion''}
                  then abstractive_summary self content
                  else extractive_summary self content 3) of
              Inl e \<Rightarrow> Inl e
            | Inr summary \<Rightarrow> Inr [(name, summary)])"
      by (simp only: call_strategy_dispatch)
  qed
  have whole: "\<forall>sections summaries.
         summarize_sections self sections = Inr summaries \<longrightarrow> distinct (map fst sections) \<longrightarrow>
         (\<forall>(name, content) \<in> set sections. strip content \<noteq> [] \<longrightarrow>
            (\<exists>summary.
               (if name \<in> {''Introduction'', ''Discussion'', ''Conclusion''}
                then abstractive_summary self content
                else extractive_summary self content 3) = Inr summary
               \<and> map_of summaries name = Some summary))"
  proof (intro allI impI ballI)
    fix sections summaries and x :: "string \<times> string"
    assume r: "summarize_sections self sections = Inr summaries"
      and d: "distinct (map fst sections)" and m: "x \<in> set sections"
    obtain k c where x: "x = (k, c)" by (cases x)
    show "case x of (name, content) \<Rightarrow> strip content \<noteq> [] \<longrightarrow>
            (\<exists>summary.
               (if name \<in> {''Introduction'', ''Discussion'', ''Conclusion''}
                then abstractive_summary self content
                else extractive_summary self content 3) = Inr summary
               \<and> map_of summaries name = Some summary)"
      unfolding x prod.case
    proof
      assume nb: "strip c \<noteq> []"
      from summarize_loop_values [OF r [unfolded summarize_sections_def] d m [unfolded x] nb]
      show "\<exists>summary.
               (if k \<in> {''Introduction'', ''Discussion'', ''Conclusion''}
                then abstractive_summary self c
                else extractive_summary self c 3) = Inr summary
               \<and> map_of summaries k = Some summary"
        by (simp only: call_strategy_dispatch)
    qed
  qed
  have tab: "summarization_strategy =
     [(''Methods'', Extractive), (''Results'', Extractive), (''Introduction'', Abstractive),
      (''Discussion'', Abstractive), (''Conclusion'', Abstractive)]"
    by (rule summarization_strategy_def)
  show ?thesis
    by (intro conjI tab table unlisted dispatch single whole)
qed

theorem summarization_strategy_table_witness:
  "''Title'' \<notin> fst ` set summarization_strategy
   \<and> get_strategy ''Title'' = Extractive
   \<and> extractive_summary toy_summarizer ''Ab. Cdef. G. Hij. Kl.'' 3 = Inr ''Ab. Cdef. Hij.''
   \<and> summarize_sections toy_summarizer [(''Title'', ''Ab. Cdef. G. Hij. Kl.'')] =
        Inr [(''Title'', ''Ab. Cdef. Hij.'')]
   \<and> abstractive_summary toy_summarizer ''We discuss the outcome here.'' = Inr ''We discuss t''
   \<and> extractive_summary toy_summarizer ''We discuss the outcome here.'' 3 =
        Inr ''We discuss the outcome here.''
   \<and> summarize_sections toy_summarizer [(''Discussion'', ''We discuss the outcome here.'')] =
        Inr [(''Discussion'', ''We discuss t'')]
   \<and> summarize_sections toy_summarizer example_sections =
        Inr [(''Results'', ''It improved.''), (''Discussion'', ''We discuss t'')]
   \<and> distinct (map fst example_sections)
   \<and> map_of [(''Results'', ''It improved.''), (''Discussion'', ''We discuss t'')] ''Discussion'' =
        Some ''We discuss t''"
proof -
  note t = summarization_strategy_table [of toy_summarizer]
  have n: "''Title'' \<notin> fst ` set summarization_strategy"
    by (simp add: summarization_strategy_def)
  have s: "strip ''Ab. Cdef. G. Hij. Kl.'' \<noteq> []" by code_simp
  have e: "extractive_summary toy_summarizer ''Ab. Cdef. G. Hij. Kl.'' 3 = Inr ''Ab. Cdef. Hij.''"
    by code_simp
  have s2: "strip ''We discuss the outcome here.'' \<noteq> []" by code_simp
  have a: "abstractive_summary toy_summarizer ''We discuss the outcome here.'' = Inr ''We discuss t''"
    by code_simp
  have e2: "extractive_summary toy_summarizer ''We discuss the outcome here.'' 3 =
        Inr ''We discuss the outcome here.''"
    by code_simp
  have run: "summarize_sections toy_summarizer example_sections =
        Inr [(''Results'', ''It improved.''), (''Discussion'', ''We discuss t'')]"
    by code_simp
  have d: "distinct (map fst example_sections)" by (simp add: example_sections_def)
  have m: "(''Discussion'', ''We discuss the outcome here.'') \<in> set example_sections"
    by (simp add: example_sections_def)
  have c1: "get_strategy ''Title'' = Extractive" using t by blast
  have c2: "summarize_sections toy_summarizer [(''Title'', ''Ab. Cdef. G. Hij. Kl.'')] =
        Inr [(''Title'', ''Ab. Cdef. Hij.'')]"
  proof -
    from t n s have "summarize_sections toy_summarizer [(''Title'', ''Ab. Cdef. G. Hij. Kl.'')] =
              (case extractive_summary toy_summarizer ''Ab. Cdef. G. Hij. Kl.'' 3 of
                 Inl e \<Rightarrow> Inl e
               | Inr summary \<Rightarrow> Inr [(''Title'', summary)])"
      by blast
    then show ?thesis by (simp add: e)
  qed
  have c3: "summarize_sections toy_summarizer [(''Discussion'', ''We discuss the outcome here.'')] =
        Inr [(''Discussion'', ''We discuss t'')]"
  proof -
    from t s2 have "summarize_sections toy_summarizer [(''Discussion'', ''We discuss the outcome here.'')] =
           (case (if ''Discussion'' \<in> {''Introduction'', ''Discussion'', ''Conclusion''}
                  then abstractive_summary toy_summarizer ''We discuss the outcome here.''
                  else extractive_summary toy_summarizer ''We discuss the outcome here.'' 3) of
              Inl e \<Rightarrow> Inl e
            | Inr summary \<Rightarrow> Inr [(''Discussion'', summary)])"
      by blast
    then show ?thesis by (simp add: a)
  qed
  have c4: "map_of [(''Results'', ''It improved.''), (''Discussion'', ''We discuss t'')] ''Discussion'' =
        Some ''We discuss t''"
  proof -
    from t have "\<forall>sections summaries.
         summarize_sections toy_summarizer sections = Inr summaries \<longrightarrow> distinct (map fst sections) \<longrightarrow>
         (\<forall>(name, content) \<in> set sections. strip content \<noteq> [] \<longrightarrow>
            (\<exists>summary.
               (if name \<in> {''Introduction'', ''Discussion'', ''Conclusion''}
                then abstractive_summary toy_summarizer content
                else extractive_summary toy_summarizer content 3) = Inr summary
               \<and> map_of summaries name = Some summary))"
      by blast
    with run d m s2 have "\<exists>summary.
               (if ''Discussion'' \<in> {''Introduction'', ''Discussion'', ''Conclusion''}
                then abstractive_summary toy_summarizer ''We discuss the outcome here.''
                else extractive_summary toy_summarizer ''We discuss the outcome here.'' 3) = Inr summary
               \<and> map_of [(''Results'', ''It improved.''), (''Discussion'', ''We discuss t'')] ''Discussion''
                    = Some summary"
      by fast
    then show ?thesis by (simp add: a)
  qed
  from n c1 e c2 a e2 c3 run d c4 show ?thesis by (intro conjI)
qed

lemma summarize_loop_keys:
  "summarize_loop self acc secs = Inr m \<Longrightarrow> distinct (map fst acc @ map fst secs) \<Longrightarrow>
   map fst m = map fst acc @ map fst (filter (\<lambda>(k, c). strip c \<noteq> []) secs)"
proof (induction secs arbitrary: acc)
  case Nil
  then show ?case by simp
next
  case (Cons x secs)
  obtain k c where x: "x = (k, c)" by (cases x)
  show ?case
  proof (cases "strip c = []")
    case True
    with Cons.prems have "summarize_loop self acc secs = Inr m" and "distinct (map fst acc @ map fst secs)"
      by (simp_all add: x)
    from Cons.IH [OF this] True show ?thesis by (simp add: x)
  next
    case False
    with Cons.prems(1) obtain summary where
      call: "call_strategy self (get_strategy k) c = Inr summary" and
      rest: "summarize_loop self (AList.update k summary acc) secs = Inr m"
      by (auto simp: x split: sum.splits)
    have knew: "k \<notin> fst ` set acc" using Cons.prems(2) by (auto simp: x)
    then have keys: "map fst (AList.update k summary acc) = map fst acc @ [k]"
      by (simp add: update_keys)
    have "distinct (map fst (AList.update k summary acc) @ map fst secs)"
      using Cons.prems(2) by (simp add: keys x)
    from Cons.IH [OF rest this] False show ?thesis by (simp add: keys x)
  qed
qed

text \<open>
  Claim C7.  When \<open>summarize_sections\<close> returns a summary map, the keys of the map are
  the keys of the sections whose content is not empty after trimming, in the order of the
  section map.  So every key of the summary map is a key of the section map, a section
  whose content is empty or whitespace has no entry, and every other section has one.
\<close>

theorem summarize_sections_keys:
  assumes "summarize_sections self sections = Inr summaries"
    and "distinct (map fst sections)"
  shows "map fst summaries = map fst (filter (\<lambda>(section, content). strip content \<noteq> []) sections)
    \<and> set (map fst summaries) \<subseteq> set (map fst sections)
    \<and> (\<forall>(section, content) \<in> set sections.
          strip content = [] \<longrightarrow> section \<notin> set (map fst summaries))
    \<and> (\<forall>(section, content) \<in> set sections.
          strip content \<noteq> [] \<longrightarrow> section \<in> set (map fst summaries))"
proof -
  have keys: "map fst summaries = map fst (filter (\<lambda>(sec, content). strip content \<noteq> []) sections)"
    using summarize_loop_keys [of self "[]" sections summaries] assms
    by (simp add: summarize_sections_def)
  have sub: "set (map fst summaries) \<subseteq> set (map fst sections)"
    unfolding keys by auto
  have blank: "sec \<notin> set (map fst summaries)"
    if "(sec, content) \<in> set sections" "strip content = []" for sec content
  proof
    assume "sec \<in> set (map fst summaries)"
    then obtain c' where "(sec, c') \<in> set sections" "strip c' \<noteq> []"
      unfolding keys by auto
    with that assms(2) show False
      by (metis eq_key_imp_eq_value)
  qed
  have full: "sec \<in> set (map fst summaries)"
    if "(sec, content) \<in> set sections" "strip content \<noteq> []" for sec content
    unfolding keys using that by force
  from keys sub blank full show ?thesis by blast
qed

theorem summarize_sections_keys_witness:
  "summarize_sections toy_summarizer example_sections =
      Inr [(''Results'', ''It improved.''), (''Discussion'', ''We discuss t'')]
   \<and> distinct (map fst example_sections)
   \<and> (''Methods'', ''  '') \<in> set example_sections
   \<and> strip ''  '' = []
   \<and> ''Methods'' \<notin> set (map fst [(''Results'', ''It improved.''), (''Discussion'', ''We discuss t'')])"
proof -
  have run: "summarize_sections toy_summarizer example_sections =
      Inr [(''Results'', ''It improved.''), (''Discussion'', ''We discuss t'')]"
    by code_simp
  have d: "distinct (map fst example_sections)" by (simp add: example_sections_def)
  have m: "(''Methods'', ''  '') \<in> set example_sections" by (simp add: example_sections_def)
  have b: "strip ''  '' = []" by code_simp
  from summarize_sections_keys [OF run d] m b
  have "''Methods'' \<notin> set (map fst [(''Results'', ''It improved.''), (''Discussion'', ''We discuss t'')])"
    by blast
  with run d m b show ?thesis by blast
qed

lemma summarize_loop_fails:
  "(k, c) \<in> set secs \<Longrightarrow> strip c \<noteq> [] \<Longrightarrow> call_strategy self (get_strategy k) c = Inl e \<Longrightarrow>
   \<exists>e'. summarize_loop self acc secs = Inl e'"
proof (induction secs arbitrary: acc)
  case Nil
  then show ?case by simp
next
  case (Cons x secs)
  obtain k' c' where x: "x = (k', c')" by (cases x)
  show ?case
  proof (cases "x = (k, c)")
    case True
    with Cons.prems show ?thesis by simp
  next
    case False
    with Cons.prems have "(k, c) \<in> set secs" by simp
    from Cons.IH [OF this Cons.prems(2,3)] show ?thesis
      by (simp add: x split: sum.splits)
  qed
qed

lemma summarize_loop_first_failure:
  "\<forall>(k', c') \<in> set pre. strip c' \<noteq> [] \<longrightarrow> (\<exists>s. call_strategy self (get_strategy k') c' = Inr s) \<Longrightarrow>
   strip c \<noteq> [] \<Longrightarrow> call_strategy self (get_strategy k) c = Inl e \<Longrightarrow>
   summarize_loop self acc (pre @ (k, c) # post) = Inl e"
proof (induction pre arbitrary: acc)
  case Nil
  then show ?case by simp
next
  case (Cons x pre)
  obtain k' c' where x: "x = (k', c')" by (cases x)
  have rest: "\<forall>(k', c') \<in> set pre. strip c' \<noteq> [] \<longrightarrow> (\<exists>s. call_strategy self (get_strategy k') c' = Inr s)"
    using Cons.prems(1) by simp
  note ih = Cons.IH [OF rest Cons.prems(2,3)]
  show ?case
  proof (cases "strip c' = []")
    case True
    then show ?thesis by (simp add: x ih)
  next
    case False
    with Cons.prems(1) obtain s where "call_strategy self (get_strategy k') c' = Inr s"
      by (auto simp: x)
    with False show ?thesis by (simp add: x ih)
  qed
qed

text \<open>
  Claim C2, as it is written, has the failure of the extractive summary caught, the
  section left out and the other sections summarized.  Nothing catches it: with a Methods
  section that gives the vectorizer an empty vocabulary the whole call fails with the
  \<open>ValueError\<close> of the vectorizer, although the same map without that section is
  summarized.
\<close>

theorem summarize_sections_abort_counterexample:
  "extractive_summary toy_summarizer ''1 2 3. '' 3 = Inl ValueError
   \<and> summarize_sections toy_summarizer failing_sections = Inl ValueError
   \<and> summarize_sections toy_summarizer failing_sections \<noteq> Inr [(''Results'', ''It improved.'')]
   \<and> summarize_sections toy_summarizer (filter (\<lambda>(k, c). k \<noteq> ''Methods'') failing_sections) =
        Inr [(''Results'', ''It improved.'')]"
  by code_simp

text \<open>
  Claim C2, amended.  When the vectorizer fails on the sentences of a section that is not
  empty after trimming and that is summarized extractively, the extractive summary fails
  with the same error and \<open>summarize_sections\<close> fails as a whole: it returns no summary
  map.  The error is the one of that section when every section before it is empty or
  summarized without error.
\<close>

theorem summarize_sections_propagates:
  assumes "(k, c) \<in> set sections"
    and "strip c \<noteq> []"
    and "get_strategy k = Extractive"
    and "tfidf_scores self (nlp_sents self c) = Inl e"
  shows "extractive_summary self c 3 = Inl e
    \<and> (\<exists>e'. summarize_sections self sections = Inl e')
    \<and> (\<forall>pre post. sections = pre @ (k, c) # post \<longrightarrow>
          (\<forall>(k', c') \<in> set pre. strip c' \<noteq> [] \<longrightarrow>
              (\<exists>s. call_strategy self (get_strategy k') c' = Inr s)) \<longrightarrow>
          summarize_sections self sections = Inl e)"
proof -
  have ex: "extractive_summary self c 3 = Inl e"
    by (simp add: extractive_summary_def assms(4))
  then have call: "call_strategy self (get_strategy k) c = Inl e"
    by (simp add: call_strategy_def assms(3))
  have any: "\<exists>e'. summarize_sections self sections = Inl e'"
    unfolding summarize_sections_def by (rule summarize_loop_fails [OF assms(1,2) call])
  have first: "summarize_sections self sections = Inl e"
    if "sections = pre @ (k, c) # post"
      and "\<forall>(k', c') \<in> set pre. strip c' \<noteq> [] \<longrightarrow> (\<exists>s. call_strategy self (get_strategy k') c' = Inr s)"
    for pre post
    unfolding summarize_sections_def that(1)
    by (rule summarize_loop_first_failure [OF that(2) assms(2) call])
  from ex any first show ?thesis by blast
qed

theorem summarize_sections_propagates_witness:
  "(''Methods'', ''1 2 3. '') \<in> set failing_sections
   \<and> strip ''1 2 3. '' \<noteq> []
   \<and> get_strategy ''Methods'' = Extractive
   \<and> tfidf_scores toy_summarizer (nlp_sents toy_summarizer ''1 2 3. '') = Inl ValueError
   \<and> failing_sections = take 3 failing_sections @ (''Methods'', ''1 2 3. '') # drop 4 failing_sections
   \<and> list_all (\<lambda>(k', c'). strip c' = []) (take 3 failing_sections)
   \<and> summarize_sections toy_summarizer failing_sections = Inl ValueError"
proof -
  have a: "(''Methods'', ''1 2 3. '') \<in> set failing_sections" by (simp add: failing_sections_def)
  have b: "strip ''1 2 3. '' \<noteq> []" by code_simp
  have c: "get_strategy ''Methods'' = Extractive" by code_simp
  have d: "tfidf_scores toy_summarizer (nlp_sents toy_summarizer ''1 2 3. '') = Inl ValueError"
    by code_simp
  have e: "failing_sections = take 3 failing_sections @ (''Methods'', ''1 2 3. '') # drop 4 failing_sections"
    by code_simp
  have f: "list_all (\<lambda>(k', c'). strip c' = []) (take 3 failing_sections)"
    by code_simp
  then have f': "\<forall>(k', c') \<in> set (take 3 failing_sections). strip c' \<noteq> [] \<longrightarrow>
              (\<exists>s. call_strategy toy_summarizer (get_strategy k') c' = Inr s)"
    by (auto simp: list_all_iff)
  from summarize_sections_propagates [OF a b c d] e f'
  have "summarize_sections toy_summarizer failing_sections = Inl ValueError" by blast
  with a b c d e f show ?thesis by blast
qed

lemma sorted_reverse_descending:
  "sorted_wrt (\<lambda>a b. f b \<le> f a) (sorted_reverse f xs)"
proof -
  have "sorted (map f (sort_key f (rev xs)))" by (rule sorted_sort_key)
  then have "sorted_wrt (\<lambda>a b. f a \<le> f b) (sort_key f (rev xs))"
    by (simp add: sorted_wrt_map)
  then show ?thesis
    by (simp add: sorted_reverse_def sorted_wrt_rev)
qed

lemma set_sorted_reverse: "set (sorted_reverse f xs) = set xs"
  by (simp add: sorted_reverse_def)

lemma distinct_sorted_reverse: "distinct (sorted_reverse f xs) = distinct xs"
  by (simp add: sorted_reverse_def)

lemma length_sorted_reverse: "length (sorted_reverse f xs) = length xs"
  by (simp add: sorted_reverse_def)

lemma top_sentence_indices_props:
  assumes "k \<le> length scores"
  shows "length (top_sentence_indices scores k) = k"
    and "distinct (top_sentence_indices scores k)"
    and "set (top_sentence_indices scores k) \<subseteq> {..<length scores}"
    and "\<forall>i \<in> set (top_sentence_indices scores k). \<forall>j < length scores.
           j \<notin> set (top_sentence_indices scores k) \<longrightarrow> scores ! j \<le> scores ! i"
proof -
  let ?f = "\<lambda>i. scores ! i"
  let ?L = "sorted_reverse ?f [0..<length scores]"
  have top: "top_sentence_indices scores k = take k ?L"
    by (simp add: top_sentence_indices_def)
  show "length (top_sentence_indices scores k) = k"
    using assms by (simp add: top length_sorted_reverse)
  have dL: "distinct ?L" by (simp add: distinct_sorted_reverse)
  then show "distinct (top_sentence_indices scores k)"
    by (simp add: top)
  have sL: "set ?L = {..<length scores}"
    by (auto simp: set_sorted_reverse)
  show "set (top_sentence_indices scores k) \<subseteq> {..<length scores}"
    unfolding top using sL set_take_subset by fastforce
  have "sorted_wrt (\<lambda>a b. ?f b \<le> ?f a) (take k ?L @ drop k ?L)"
    using sorted_reverse_descending [of ?f "[0..<length scores]"] by simp
  then have order: "\<forall>i \<in> set (take k ?L). \<forall>j \<in> set (drop k ?L). scores ! j \<le> scores ! i"
    unfolding sorted_wrt_append by blast
  have split: "set (take k ?L) \<union> set (drop k ?L) = {..<length scores}"
    using sL by (metis append_take_drop_id set_append)
  show "\<forall>i \<in> set (top_sentence_indices scores k). \<forall>j < length scores.
           j \<notin> set (top_sentence_indices scores k) \<longrightarrow> scores ! j \<le> scores ! i"
    unfolding top using order split by blast
qed

lemma extractive_summary_top_k:
  assumes "tfidf_scores self (nlp_sents self text) = Inr scores"
    and "length scores = length (nlp_sents self text)"
    and "k \<le> length (nlp_sents self text)"
  shows "\<exists>idx. extractive_summary self text k =
             Inr (join '' '' (map (\<lambda>i. nlp_sents self text ! i) idx))
      \<and> length idx = k
      \<and> sorted_wrt (<) idx
      \<and> set idx \<subseteq> {..<length (nlp_sents self text)}
      \<and> (\<forall>i \<in> set idx. \<forall>j < length (nlp_sents self text).
            j \<notin> set idx \<longrightarrow> scores ! j \<le> scores ! i)"
proof -
  let ?ss = "nlp_sents self text"
  let ?top = "top_sentence_indices scores k"
  let ?idx = "sort ?top"
  have k: "k \<le> length scores" using assms(2,3) by simp
  note p = top_sentence_indices_props [OF k]
  have len: "length ?idx = k" using p(1) by simp
  have strict: "sorted_wrt (<) ?idx"
    using p(2) by (simp add: strict_sorted_iff)
  have bound: "set ?idx \<subseteq> {..<length ?ss}"
    using p(3) assms(2) by simp
  have best: "\<forall>i \<in> set ?idx. \<forall>j < length ?ss. j \<notin> set ?idx \<longrightarrow> scores ! j \<le> scores ! i"
    using p(4) assms(2) by simp
  have inb: "\<forall>i \<in> set ?idx. i < length ?ss"
    using bound by blast
  have run: "extractive_summary self text k = Inr (join '' '' (map (\<lambda>i. ?ss ! i) ?idx))"
    using inb by (simp add: extractive_summary_def assms(1) Let_def)
  from run len strict bound best show ?thesis by blast
qed

text \<open>
  Claim C6.  When the section has at least three sentences and the vectorizer returns one
  score for each of them, the extractive summary, called with its default of three
  sentences, is three sentences of the section joined by single spaces.  They are taken by
  strictly increasing position in the section, so in their original relative order, and
  they are the best ranked: no sentence left out has a greater score than a sentence of
  the summary.
\<close>

theorem extractive_summary_order:
  assumes "tfidf_scores self (nlp_sents self text) = Inr scores"
    and "length scores = length (nlp_sents self text)"
    and "3 \<le> length (nlp_sents self text)"
  shows "call_strategy self Extractive text = extractive_summary self text 3
      \<and> (\<exists>idx. extractive_summary self text 3 =
             Inr (join '' '' (map (\<lambda>i. nlp_sents self text ! i) idx))
      \<and> length idx = 3
      \<and> sorted_wrt (<) idx
      \<and> set idx \<subseteq> {..<length (nlp_sents self text)}
      \<and> (\<forall>i \<in> set idx. \<forall>j < length (nlp_sents self text).
            j \<notin> set idx \<longrightarrow> scores ! j \<le> scores ! i))"
  using extractive_summary_top_k [OF assms] by (simp add: call_strategy_def)

theorem extractive_summary_order_witness:
  "nlp_sents toy_summarizer ''Ab. Cdef. G. Hij. Kl.'' = [''Ab.'', ''Cdef.'', ''G.'', ''Hij.'', ''Kl.'']
   \<and> tfidf_scores toy_summarizer (nlp_sents toy_summarizer ''Ab. Cdef. G. Hij. Kl.'') = Inr [2, 4, 1, 3, 2]
   \<and> top_sentence_indices [2, 4, 1, 3, 2 :: nat] 3 = [1, 3, 0]
   \<and> extractive_summary toy_summarizer ''Ab. Cdef. G. Hij. Kl.'' 3 = Inr ''Ab. Cdef. Hij.''
   \<and> (\<exists>idx. Inr ''Ab. Cdef. Hij.'' =
          (Inr (join '' '' (map (\<lambda>i. [''Ab.'', ''Cdef.'', ''G.'', ''Hij.'', ''Kl.''] ! i) idx)) :: error + string)
        \<and> length idx = 3 \<and> sorted_wrt (<) idx)"
proof -
  let ?t = "''Ab. Cdef. G. Hij. Kl.''"
  have n: "nlp_sents toy_summarizer ?t = [''Ab.'', ''Cdef.'', ''G.'', ''Hij.'', ''Kl.'']"
    by code_simp
  have s: "tfidf_scores toy_summarizer (nlp_sents toy_summarizer ?t) = Inr [2, 4, 1, 3, 2]"
    by code_simp
  have l: "length [2, 4, 1, 3, 2 :: nat] = length (nlp_sents toy_summarizer ?t)"
    by (simp add: n)
  have g: "3 \<le> length (nlp_sents toy_summarizer ?t)"
    by (simp add: n)
  have t: "top_sentence_indices [2, 4, 1, 3, 2 :: nat] 3 = [1, 3, 0]"
    by code_simp
  have e: "extractive_summary toy_summarizer ?t 3 = Inr ''Ab. Cdef. Hij.''"
    by code_simp
  from extractive_summary_order [OF s l g]
  have "\<exists>idx. Inr ''Ab. Cdef. Hij.'' =
          (Inr (join '' '' (map (\<lambda>i. [''Ab.'', ''Cdef.'', ''G.'', ''Hij.'', ''Kl.''] ! i) idx)) :: error + string)
        \<and> length idx = 3 \<and> sorted_wrt (<) idx"
    unfolding e n by blast
  with n s t e show ?thesis by blast
qed

end
